theory Spec2Isabelle
  imports Main "HOL-Library.Word"
begin

section \<open>Data model\<close>

text \<open>
  Python values of \<open>backend.py\<close>.  A \<open>bytes\<close> object is a list of 8-bit words.
  A \<open>str\<close> is a list of Unicode code points (natural numbers below \<open>0x110000\<close>);
  \<open>+\<close> on \<open>str\<close> is list append.  The argument of \<open>double_sha256\<close> is either
  of the two (\<open>isinstance(data, bytes)\<close> tells them apart).
\<close>

type_synonym byte = "8 word"
type_synonym bytes = "byte list"
type_synonym str = "nat list"

datatype pydata = Bytes bytes | Str str

text \<open>The exceptions the modelled code can raise.\<close>

datatype error = UnicodeEncodeError | IndexError

text \<open>
  \<open>hashlib.sha256\<close> is not code of the repository: every definition below takes the
  digest function (bytes to digest bytes) as its first parameter \<open>sha256\<close>, and every
  theorem holds for any such function.
\<close>

type_synonym digest = "bytes \<Rightarrow> bytes"

subsection \<open>\<open>str.encode('utf-8')\<close> and \<open>hexdigest\<close>\<close>

text \<open>
  UTF-8 of one code point.  Python raises \<open>UnicodeEncodeError\<close> on a surrogate
  (\<open>0xD800..0xDFFF\<close>); numbers from \<open>0x110000\<close> on are no code points at all and are
  refused the same way.
\<close>

definition utf8_char :: "nat \<Rightarrow> error + bytes" where
  "utf8_char c =
     (if c < 0x80 then Inr [of_nat c]
      else if c < 0x800 then Inr [of_nat (0xC0 + c div 0x40), of_nat (0x80 + c mod 0x40)]
      else if 0xD800 \<le> c \<and> c < 0xE000 then Inl UnicodeEncodeError
      else if c < 0x10000 then
        Inr [of_nat (0xE0 + c div 0x1000), of_nat (0x80 + (c div 0x40) mod 0x40),
             of_nat (0x80 + c mod 0x40)]
      else if c < 0x110000 then
        Inr [of_nat (0xF0 + c div 0x40000), of_nat (0x80 + (c div 0x1000) mod 0x40),
             of_nat (0x80 + (c div 0x40) mod 0x40), of_nat (0x80 + c mod 0x40)]
      else Inl UnicodeEncodeError)"

fun encode_utf8 :: "str \<Rightarrow> error + bytes" where
  "encode_utf8 [] = Inr []"
| "encode_utf8 (c # cs) =
     (case utf8_char c of
        Inl e \<Rightarrow> Inl e
      | Inr b \<Rightarrow> (case encode_utf8 cs of Inl e \<Rightarrow> Inl e | Inr bs \<Rightarrow> Inr (b @ bs)))"

text \<open>Lower-case hexadecimal text of a digest, two characters per byte.\<close>

definition hex_digit :: "nat \<Rightarrow> nat" where
  "hex_digit d = (if d < 10 then 48 + d else 87 + d)"

definition hex_byte :: "byte \<Rightarrow> str" where
  "hex_byte b = [hex_digit (unat b div 16), hex_digit (unat b mod 16)]"

definition hexdigest :: "bytes \<Rightarrow> str" where
  "hexdigest bs = concat (map hex_byte bs)"

subsection \<open>\<open>double_sha256\<close> and \<open>Transaction\<close>\<close>

definition double_sha256 :: "digest \<Rightarrow> pydata \<Rightarrow> error + str" where
  "double_sha256 sha256 data =
     (case (case data of Bytes b \<Rightarrow> Inr b | Str s \<Rightarrow> encode_utf8 s) of
        Inl e \<Rightarrow> Inl e
      | Inr d \<Rightarrow>
          (let hash1 = sha256 d;
               hash2 = hexdigest (sha256 hash1)
           in Inr hash2))"

record transaction =
  data :: pydata
  txid :: str

definition Transaction :: "digest \<Rightarrow> pydata \<Rightarrow> error + transaction" where
  "Transaction sha256 data_str =
     (case double_sha256 sha256 data_str of
        Inl e \<Rightarrow> Inl e
      | Inr h \<Rightarrow> Inr \<lparr>data = data_str, txid = h\<rparr>)"

section \<open>The store of list objects\<close>

text \<open>
  \<open>_build_tree_levels\<close> appends to a list that other names refer to, so the lists of
  fingerprints live in a store: an address is an index into the store, allocation
  appends a new object, and \<open>list.append\<close> updates the object in place.  Two names
  alias when they hold the same address.  Every address the program holds comes from an
  allocation, so it is below the length of the store.
\<close>

type_synonym addr = nat
type_synonym heap = "str list list"

definition alloc :: "heap \<Rightarrow> str list \<Rightarrow> heap \<times> addr" where
  "alloc h xs = (h @ [xs], length h)"

definition append_to :: "heap \<Rightarrow> addr \<Rightarrow> str \<Rightarrow> heap" where
  "append_to h a x = h[a := h ! a @ [x]]"

text \<open>\<open>xs[i]\<close> for a non-negative index: \<open>IndexError\<close> out of range.\<close>

definition getitem :: "'a list \<Rightarrow> nat \<Rightarrow> error + 'a" where
  "getitem xs i = (if i < length xs then Inr (xs ! i) else Inl IndexError)"

section \<open>\<open>MerkleTree\<close>\<close>

record merkle_tree =
  transactions :: "transaction list"
  txids :: addr
  tree_levels :: "addr list"
  root :: "str option"

subsection \<open>\<open>_build_tree_levels\<close>\<close>

text \<open>
  The inner \<open>for i in range(0, len(current_level), 2)\<close> loop over the (already padded)
  current level: it reads \<open>current_level[i]\<close> and \<open>current_level[i+1]\<close> and appends the
  parent to \<open>next_level\<close>.  On an odd length the read of \<open>current_level[i+1]\<close> at the
  last pair raises \<open>IndexError\<close>.
\<close>

fun hash_pairs :: "digest \<Rightarrow> str list \<Rightarrow> error + str list" where
  "hash_pairs sha256 [] = Inr []"
| "hash_pairs sha256 [left_child] = Inl IndexError"
| "hash_pairs sha256 (left_child # right_child # rest) =
     (case double_sha256 sha256 (Str (left_child @ right_child)) of
        Inl e \<Rightarrow> Inl e
      | Inr parent_hash \<Rightarrow>
          (case hash_pairs sha256 rest of
             Inl e \<Rightarrow> Inl e
           | Inr next_level \<Rightarrow> Inr (parent_hash # next_level)))"

lemma hash_pairs_length:
  "hash_pairs sha256 xs = Inr ys \<Longrightarrow> length xs = 2 * length ys"
  by (induction sha256 xs arbitrary: ys rule: hash_pairs.induct)
     (auto split: sum.splits)

text \<open>
  The \<open>while len(current_level) > 1\<close> loop.  \<open>levels\<close> is the list of the addresses of
  the levels built so far and \<open>current_level\<close> the address of the last of them: the
  padding \<open>current_level.append(current_level[-1])\<close> therefore changes the very object
  that \<open>levels\<close> holds (and, in the first round, the object the caller passed).
\<close>

function build_loop ::
  "digest \<Rightarrow> heap \<Rightarrow> addr list \<Rightarrow> addr \<Rightarrow> error + (heap \<times> addr list)" where
  "build_loop sha256 h levels current_level =
     (if length (h ! current_level) > 1 then
        (let h1 = (if length (h ! current_level) mod 2 \<noteq> 0
                   then append_to h current_level (last (h ! current_level))
                   else h)
         in case hash_pairs sha256 (h1 ! current_level) of
              Inl e \<Rightarrow> Inl e
            | Inr next_level \<Rightarrow>
                (case alloc h1 next_level of
                   (h2, a) \<Rightarrow> build_loop sha256 h2 (levels @ [a]) a))
      else Inr (h, levels))"
  by pat_completeness auto
termination
proof (relation "measure (\<lambda>(sha256, h, levels, cur). length (h ! cur))")
  show "wf (measure (\<lambda>(sha256, h, levels, cur). length (h ! cur)))"
    by simp
next
  fix sha256 :: digest and h h1 h2 :: heap and levels :: "addr list"
    and cur a :: addr and next_level :: "str list"
  assume gt: "1 < length (h ! cur)"
    and h1: "h1 = (if length (h ! cur) mod 2 \<noteq> 0
                   then append_to h cur (last (h ! cur)) else h)"
    and hp: "hash_pairs sha256 (h1 ! cur) = Inr next_level"
    and al: "(h2, a) = alloc h1 next_level"
  have len: "length (h1 ! cur) = 2 * length next_level"
    using hp by (rule hash_pairs_length)
  have new: "h2 ! a = next_level"
    using al by (simp add: alloc_def)
  have "length (h1 ! cur) \<le> Suc (length (h ! cur))"
    using h1 by (cases "cur < length h") (auto simp: append_to_def list_update_beyond)
  moreover have "odd (length (h ! cur)) \<or> h1 = h"
    using h1 by (auto simp: odd_iff_mod_2_eq_one)
  ultimately have "length next_level < length (h ! cur)"
    using len gt by (auto elim!: oddE)
  then show "((sha256, h2, levels @ [a], a), sha256, h, levels, cur)
      \<in> measure (\<lambda>(sha256, h, levels, cur). length (h ! cur))"
    using new by simp
qed

declare build_loop.simps [simp del]

definition build_tree_levels ::
  "digest \<Rightarrow> heap \<Rightarrow> addr \<Rightarrow> error + (heap \<times> addr list)" where
  "build_tree_levels sha256 h leaves =
     (if h ! leaves = [] then Inr (h, [])
      else build_loop sha256 h [leaves] leaves)"

subsection \<open>\<open>MerkleTree.__init__\<close>\<close>

text \<open>
  \<open>self.txids = [tx.txid for tx in self.transactions]\<close> creates a new list object;
  its address is handed to \<open>_build_tree_levels\<close>.  The root is
  \<open>self.tree_levels[-1][0]\<close> when \<open>tree_levels\<close> is not empty.
\<close>

definition MerkleTree ::
  "digest \<Rightarrow> heap \<Rightarrow> transaction list \<Rightarrow> error + (heap \<times> merkle_tree)" where
  "MerkleTree sha256 h txs =
     (case alloc h (map txid txs) of
        (h1, ids) \<Rightarrow>
          (case build_tree_levels sha256 h1 ids of
             Inl e \<Rightarrow> Inl e
           | Inr (h2, lvls) \<Rightarrow>
               (if lvls \<noteq> [] then
                  (case getitem (h2 ! last lvls) 0 of
                     Inl e \<Rightarrow> Inl e
                   | Inr r \<Rightarrow>
                       Inr (h2, \<lparr>transactions = txs, txids = ids,
                                 tree_levels = lvls, root = Some r\<rparr>))
                else
                  Inr (h2, \<lparr>transactions = txs, txids = ids,
                            tree_levels = lvls, root = None\<rparr>))))"

subsection \<open>\<open>MerkleTree.get_proof\<close>\<close>

text \<open>\<open>list.index\<close>: the first position of the value, \<open>None\<close> for \<open>ValueError\<close>.\<close>

fun index_of :: "'a list \<Rightarrow> 'a \<Rightarrow> nat option" where
  "index_of [] y = None"
| "index_of (x # xs) y =
     (if x = y then Some 0
      else (case index_of xs y of None \<Rightarrow> None | Some i \<Rightarrow> Some (Suc i)))"

text \<open>The two values of \<open>side\<close>, as \<open>str\<close>.\<close>

definition right :: str where
  "right = map of_char ''right''"

definition left :: str where
  "left = map of_char ''left''"

type_synonym merkle_proof = "(str \<times> str) list"

text \<open>
  The \<open>for level in range(len(self.tree_levels) - 1)\<close> loop: the first argument is the
  list of the addresses \<open>self.tree_levels[level]\<close> still to visit (all the levels but
  the last), \<open>current_index\<close> and \<open>proof\<close> are the loop's variables.
\<close>

fun proof_loop ::
  "heap \<Rightarrow> addr list \<Rightarrow> nat \<Rightarrow> merkle_proof \<Rightarrow> error + merkle_proof" where
  "proof_loop h [] current_index proof = Inr proof"
| "proof_loop h (level # rest) current_index proof =
     (let current_level_list = h ! level;
          is_odd_node = (length current_level_list mod 2 \<noteq> 0)
      in if is_odd_node \<and> current_index = length current_level_list - 1 then
           proof_loop h rest (current_index div 2) proof
         else if current_index mod 2 = 0 then
           (case getitem current_level_list (current_index + 1) of
              Inl e \<Rightarrow> Inl e
            | Inr sibling \<Rightarrow>
                proof_loop h rest (current_index div 2) (proof @ [(sibling, right)]))
         else
           (case getitem current_level_list (current_index - 1) of
              Inl e \<Rightarrow> Inl e
            | Inr sibling \<Rightarrow>
                proof_loop h rest (current_index div 2) (proof @ [(sibling, left)])))"

text \<open>\<open>get_proof\<close> returns \<open>None\<close> when the fingerprint is not in \<open>self.txids\<close>.\<close>

definition get_proof ::
  "heap \<Rightarrow> merkle_tree \<Rightarrow> str \<Rightarrow> error + merkle_proof option" where
  "get_proof h t target_txid =
     (case index_of (h ! txids t) target_txid of
        None \<Rightarrow> Inr None
      | Some current_index \<Rightarrow>
          (case proof_loop h (butlast (tree_levels t)) current_index [] of
             Inl e \<Rightarrow> Inl e
           | Inr proof \<Rightarrow> Inr (Some proof)))"

section \<open>\<open>Block\<close>, \<open>FullNode\<close> and \<open>SPVClient\<close>\<close>

text \<open>The header dictionary \<open>{"merkle_root": root}\<close>.\<close>

record header =
  merkle_root :: "str option"

record block =
  block_transactions :: "transaction list"
  merkle_tree :: merkle_tree
  block_header :: header

definition Block :: "digest \<Rightarrow> heap \<Rightarrow> transaction list \<Rightarrow> error + (heap \<times> block)" where
  "Block sha256 h txs =
     (case MerkleTree sha256 h txs of
        Inl e \<Rightarrow> Inl e
      | Inr (h', t) \<Rightarrow>
          Inr (h', \<lparr>block_transactions = txs, merkle_tree = t,
                    block_header = \<lparr>merkle_root = root t\<rparr>\<rparr>))"

text \<open>\<open>FullNode.get_merkle_proof\<close> passes the request on (its printing is left out).\<close>

definition get_merkle_proof ::
  "heap \<Rightarrow> block \<Rightarrow> str \<Rightarrow> error + merkle_proof option" where
  "get_merkle_proof h b target_txid = get_proof h (merkle_tree b) target_txid"

text \<open>
  The client holds \<open>block_header\<close>, \<open>None\<close> until \<open>set_header\<close>.  The calls of
  \<open>self.log\<close> only report and are left out.
\<close>

record spv_client =
  client_header :: "header option"

definition SPVClient :: spv_client where
  "SPVClient = \<lparr>client_header = None\<rparr>"

definition set_header :: "spv_client \<Rightarrow> header \<Rightarrow> spv_client" where
  "set_header c hdr = c\<lparr>client_header := Some hdr\<rparr>"

text \<open>The \<open>for sibling_hash, side in proof\<close> loop of \<open>verify_transaction\<close>.\<close>

fun verify_loop :: "digest \<Rightarrow> str \<Rightarrow> merkle_proof \<Rightarrow> error + str" where
  "verify_loop sha256 calculated_hash [] = Inr calculated_hash"
| "verify_loop sha256 calculated_hash ((sibling_hash, side) # rest) =
     (let combined_data =
            (if side = right then calculated_hash @ sibling_hash
             else sibling_hash @ calculated_hash)
      in case double_sha256 sha256 (Str combined_data) of
           Inl e \<Rightarrow> Inl e
         | Inr h \<Rightarrow> verify_loop sha256 h rest)"

definition verify_transaction ::
  "digest \<Rightarrow> spv_client \<Rightarrow> str \<Rightarrow> merkle_proof option \<Rightarrow> error + bool" where
  "verify_transaction sha256 c tx proof =
     (case client_header c of
        None \<Rightarrow> Inr False
      | Some hdr \<Rightarrow>
          (case proof of
             None \<Rightarrow> Inr False
           | Some p \<Rightarrow>
               (case verify_loop sha256 tx p of
                  Inl e \<Rightarrow> Inl e
                | Inr calculated_hash \<Rightarrow>
                    (let target_root = merkle_root hdr
                     in if Some calculated_hash = target_root then Inr True
                        else Inr False))))"

section \<open>Notions used in the statements\<close>

text \<open>
  A record is a transaction object as \<open>Transaction(data_str)\<close> creates it: its
  fingerprint is the double hash of its content.
\<close>

definition is_record :: "digest \<Rightarrow> transaction \<Rightarrow> bool" where
  "is_record sha256 tx = (Transaction sha256 (data tx) = Inr tx)"

text \<open>A \<open>str\<close> that \<open>encode('utf-8')\<close> accepts.\<close>

definition encodable :: "str \<Rightarrow> bool" where
  "encodable s = (\<not> isl (encode_utf8 s))"

text \<open>
  What the padding step leaves in a list object: the last entry once more when the
  list has an odd number of entries and more than one.
\<close>

definition padded :: "'a list \<Rightarrow> 'a list" where
  "padded xs = (if length xs > 1 \<and> length xs mod 2 \<noteq> 0 then xs @ [last xs] else xs)"

text \<open>The nested list \<open>tree.tree_levels\<close>, read through the store.\<close>

definition level_lists :: "heap \<Rightarrow> merkle_tree \<Rightarrow> str list list" where
  "level_lists h t = map ((!) h) (tree_levels t)"

text \<open>
  The relation between the stored levels, bottom to top: the parents of a level are
  the hashes of its adjacent pairs, the level above is stored as these parents after
  its own padding, and the last level has one entry.
\<close>

fun levels_ok :: "digest \<Rightarrow> str list list \<Rightarrow> bool" where
  "levels_ok sha256 [] = False"
| "levels_ok sha256 [l] = (length l = 1)"
| "levels_ok sha256 (l # l' # rest) =
     (case hash_pairs sha256 l of
        Inl e \<Rightarrow> False
      | Inr nx \<Rightarrow> nx \<noteq> [] \<and> l' = padded nx \<and> levels_ok sha256 (l' # rest))"

text \<open>
  The numbers of entries of the stored levels, bottom to top, as a reader of
  \<open>tree.tree_levels\<close> sees them after the construction.
\<close>

definition level_sizes :: "digest \<Rightarrow> heap \<Rightarrow> transaction list \<Rightarrow> error + nat list" where
  "level_sizes sha256 h txs =
     (case MerkleTree sha256 h txs of
        Inl e \<Rightarrow> Inl e
      | Inr (h', t) \<Rightarrow> Inr (map length (level_lists h' t)))"

text \<open>
  Two shapes of such a list of sizes.  \<open>halving\<close>: every level but the last has an even
  size, the level above has exactly half of it, and the last size is one.
  \<open>padded_halving\<close>: the same, except that the level above has half the size after its
  own padding (\<open>padded_size\<close>: one more when the number is odd and greater than one).
\<close>

definition padded_size :: "nat \<Rightarrow> nat" where
  "padded_size k = (if 1 < k \<and> k mod 2 \<noteq> 0 then k + 1 else k)"

fun halving :: "nat list \<Rightarrow> bool" where
  "halving [] = False"
| "halving [n] = (n = 1)"
| "halving (n # m # rest) = (even n \<and> 2 * m = n \<and> halving (m # rest))"

fun padded_halving :: "nat list \<Rightarrow> bool" where
  "padded_halving [] = False"
| "padded_halving [n] = (n = 1)"
| "padded_halving (n # m # rest) =
     (even n \<and> m = padded_size (n div 2) \<and> padded_halving (m # rest))"

text \<open>
  Concrete inputs: a small stand-in for the digest function (two bytes: the length and
  the sum of the input) and the five records \<open>Transaction("a")\<close> to
  \<open>Transaction("e")\<close> it gives.
\<close>

definition sample_digest :: digest where
  "sample_digest bs = [of_nat (length bs), of_nat (sum_list (map unat bs))]"

definition tx_a :: transaction where "tx_a = \<lparr>data = Str [97], txid = [48, 50, 54, 50]\<rparr>"
definition tx_b :: transaction where "tx_b = \<lparr>data = Str [98], txid = [48, 50, 54, 51]\<rparr>"
definition tx_c :: transaction where "tx_c = \<lparr>data = Str [99], txid = [48, 50, 54, 52]\<rparr>"
definition tx_d :: transaction where "tx_d = \<lparr>data = Str [100], txid = [48, 50, 54, 53]\<rparr>"
definition tx_e :: transaction where "tx_e = \<lparr>data = Str [101], txid = [48, 50, 54, 54]\<rparr>"

text \<open>
  Verification as the specification words it: fold the proof from left to right,
  starting at the leaf fingerprint; an entry with side RIGHT replaces the accumulator
  by the fingerprint of accumulator followed by sibling, any other entry by the
  fingerprint of sibling followed by accumulator; success if and only if the final
  accumulator equals the reference root.  The fingerprint of a text is
  \<open>double_sha256\<close> of it, so a step can raise, and the fold then stops with the error.
\<close>

definition spec_step :: "digest \<Rightarrow> error + str \<Rightarrow> str \<times> str \<Rightarrow> error + str" where
  "spec_step sha256 acc entry =
     (case acc of
        Inl e \<Rightarrow> Inl e
      | Inr a \<Rightarrow>
          (case entry of
             (sibling, side) \<Rightarrow>
               if side = right then double_sha256 sha256 (Str (a @ sibling))
               else double_sha256 sha256 (Str (sibling @ a))))"

definition spec_verify :: "digest \<Rightarrow> str \<Rightarrow> merkle_proof \<Rightarrow> str option \<Rightarrow> error + bool" where
  "spec_verify sha256 leaf_fingerprint proof reference_root =
     (case foldl (spec_step sha256) (Inr leaf_fingerprint) proof of
        Inl e \<Rightarrow> Inl e
      | Inr acc \<Rightarrow> Inr (Some acc = reference_root))"

section \<open>Fingerprints and pair hashing\<close>

lemma encode_utf8_vectors:
  "encode_utf8 [0x41, 0xE9, 0x20AC, 0x10348] =
     Inr [0x41, 0xC3, 0xA9, 0xE2, 0x82, 0xAC, 0xF0, 0x90, 0x8D, 0x88]"
  "encode_utf8 [0x41, 0xD800] = Inl UnicodeEncodeError"
  by (simp_all add: utf8_char_def)

lemma hexdigest_vector: "hexdigest [0x00, 0x9F, 0xAB, 0xFF] = map of_char ''009fabff''"
  by (simp add: hexdigest_def hex_byte_def hex_digit_def)

lemma encodable_Nil: "encodable []"
  by (simp add: encodable_def)

lemma encodable_Cons:
  "encodable (c # cs) = (\<not> isl (utf8_char c) \<and> encodable cs)"
  by (auto simp: encodable_def split: sum.splits)

lemma encodable_append: "encodable (a @ b) = (encodable a \<and> encodable b)"
  by (induction a) (auto simp: encodable_Nil encodable_Cons)

lemma utf8_char_ascii: "c < 128 \<Longrightarrow> utf8_char c = Inr [of_nat c]"
  by (simp add: utf8_char_def)

lemma hex_digit_ascii: "d < 16 \<Longrightarrow> hex_digit d < 128"
  by (simp add: hex_digit_def)

lemma encodable_hex_byte: "encodable (hex_byte b)"
proof -
  have "unat b < 256" using unsigned_less [of b] by simp
  then have "unat b div 16 < 16" "unat b mod 16 < 16" by simp_all
  then show ?thesis
    by (simp add: hex_byte_def encodable_Cons encodable_Nil utf8_char_ascii hex_digit_ascii)
qed

lemma encodable_hexdigest: "encodable (hexdigest bs)"
  by (induction bs) (simp_all add: hexdigest_def encodable_Nil encodable_append encodable_hex_byte)

lemma double_sha256_encodable: "double_sha256 sha256 d = Inr r \<Longrightarrow> encodable r"
  by (auto simp: double_sha256_def Let_def encodable_hexdigest split: sum.splits)

lemma double_sha256_Str:
  "encodable s \<Longrightarrow> \<exists>r. double_sha256 sha256 (Str s) = Inr r"
  by (cases "encode_utf8 s") (auto simp: double_sha256_def Let_def encodable_def)

lemma hash_pairs_ok:
  "even (length xs) \<Longrightarrow> \<forall>x\<in>set xs. encodable x \<Longrightarrow> \<exists>ys. hash_pairs sha256 xs = Inr ys"
proof (induction sha256 xs rule: hash_pairs.induct)
  case (3 sha256 l r rest)
  then have "encodable (l @ r)" by (simp add: encodable_append)
  then obtain p where p: "double_sha256 sha256 (Str (l @ r)) = Inr p"
    using double_sha256_Str by blast
  have "\<exists>ys. hash_pairs sha256 rest = Inr ys"
    using "3.IH" [OF p] "3.prems" by simp
  then show ?case using p by auto
qed simp_all

lemma hash_pairs_encodable:
  "hash_pairs sha256 xs = Inr ys \<Longrightarrow> y \<in> set ys \<Longrightarrow> encodable y"
  by (induction sha256 xs arbitrary: ys rule: hash_pairs.induct)
     (auto split: sum.splits dest: double_sha256_encodable)

lemma hash_pairs_nth:
  "hash_pairs sha256 xs = Inr ys \<Longrightarrow> j < length ys \<Longrightarrow>
   double_sha256 sha256 (Str (xs ! (2 * j) @ xs ! Suc (2 * j))) = Inr (ys ! j)"
proof (induction sha256 xs arbitrary: ys j rule: hash_pairs.induct)
  case (3 sha256 l r rest)
  then show ?case by (cases j) (auto split: sum.splits)
qed simp_all

section \<open>The construction loop\<close>

lemma build_loop_ok:
  assumes "cur < length h" "h ! cur \<noteq> []" "\<forall>x\<in>set (h ! cur). encodable x"
  shows "\<exists>h' new. build_loop sha256 h levels cur = Inr (h', levels @ new)
           \<and> (\<forall>a<length h. a \<noteq> cur \<longrightarrow> h' ! a = h ! a)
           \<and> h' ! cur = padded (h ! cur)
           \<and> levels_ok sha256 (map ((!) h') (cur # new))"
  using assms
proof (induction sha256 h levels cur rule: build_loop.induct)
  case (1 sha256 h levels cur)
  show ?case
  proof (cases "1 < length (h ! cur)")
    case False
    then have "length (h ! cur) = 1"
      using "1.prems"(2) by (cases "h ! cur") auto
    moreover have "build_loop sha256 h levels cur = Inr (h, levels @ [])"
      using False by (subst build_loop.simps) simp
    ultimately show ?thesis
      by (intro exI [of _ h] exI [of _ "[]"]) (simp add: padded_def)
  next
    case True
    define h1 where "h1 = (if length (h ! cur) mod 2 \<noteq> 0
                           then append_to h cur (last (h ! cur)) else h)"
    have h1_cur: "h1 ! cur = padded (h ! cur)"
      using True "1.prems"(1) by (simp add: h1_def padded_def append_to_def)
    have h1_len: "length h1 = length h"
      by (simp add: h1_def append_to_def)
    have h1_other: "\<And>b. b \<noteq> cur \<Longrightarrow> h1 ! b = h ! b"
      by (simp add: h1_def append_to_def)
    have ev: "even (length (h1 ! cur))"
      unfolding h1_cur padded_def using True by (auto simp: odd_iff_mod_2_eq_one)
    have "last (h ! cur) \<in> set (h ! cur)"
      using "1.prems"(2) by simp
    then have enc: "\<forall>x\<in>set (h1 ! cur). encodable x"
      unfolding h1_cur padded_def using "1.prems"(3) by auto
    obtain nx where nx: "hash_pairs sha256 (h1 ! cur) = Inr nx"
      using hash_pairs_ok [OF ev enc] by blast
    have "length (h1 ! cur) = 2 * length nx"
      using nx by (rule hash_pairs_length)
    moreover have "length (h ! cur) \<le> length (h1 ! cur)"
      unfolding h1_cur padded_def by simp
    ultimately have nx_ne: "nx \<noteq> []"
      using True by auto
    define a where "a = length h1"
    define h2 where "h2 = h1 @ [nx]"
    have al: "(h2, a) = alloc h1 nx"
      by (simp add: alloc_def h2_def a_def)
    have "\<exists>h' new. build_loop sha256 h2 (levels @ [a]) a = Inr (h', (levels @ [a]) @ new)
           \<and> (\<forall>b<length h2. b \<noteq> a \<longrightarrow> h' ! b = h2 ! b)
           \<and> h' ! a = padded (h2 ! a)
           \<and> levels_ok sha256 (map ((!) h') (a # new))"
    proof (rule "1.IH" [OF True h1_def nx al])
      show "a < length h2" by (simp add: a_def h2_def)
      show "h2 ! a \<noteq> []" using nx_ne by (simp add: a_def h2_def)
      show "\<forall>x\<in>set (h2 ! a). encodable x"
        using hash_pairs_encodable [OF nx] by (simp add: a_def h2_def)
    qed
    then obtain h' new where
      run: "build_loop sha256 h2 (levels @ [a]) a = Inr (h', (levels @ [a]) @ new)"
      and frame: "\<forall>b<length h2. b \<noteq> a \<longrightarrow> h' ! b = h2 ! b"
      and top: "h' ! a = padded (h2 ! a)"
      and ok: "levels_ok sha256 (map ((!) h') (a # new))"
      by blast
    have h2_old: "\<And>b. b < length h \<Longrightarrow> h2 ! b = h1 ! b"
      by (simp add: h2_def nth_append h1_len)
    have old: "\<And>b. b < length h \<Longrightarrow> h' ! b = h1 ! b"
      using frame h2_old by (simp add: h2_def a_def h1_len)
    have "build_loop sha256 h levels cur =
            (case hash_pairs sha256 (h1 ! cur) of
               Inl e \<Rightarrow> Inl e
             | Inr nl \<Rightarrow> (case alloc h1 nl of
                           (h2, a) \<Rightarrow> build_loop sha256 h2 (levels @ [a]) a))"
      unfolding h1_def by (subst build_loop.simps) (simp only: True if_True Let_def)
    then have "build_loop sha256 h levels cur = Inr (h', levels @ (a # new))"
      using nx al [symmetric] run by simp
    moreover have "\<forall>b<length h. b \<noteq> cur \<longrightarrow> h' ! b = h ! b"
      using old h1_other by simp
    moreover have "h' ! cur = padded (h ! cur)"
      using old [OF "1.prems"(1)] h1_cur by simp
    moreover have "levels_ok sha256 (map ((!) h') (cur # a # new))"
      using ok nx nx_ne top old [OF "1.prems"(1)] by (simp add: h2_def a_def)
    ultimately show ?thesis by blast
  qed
qed

section \<open>The walk of \<open>get_proof\<close> and the fold of \<open>verify_transaction\<close>\<close>

lemma left_neq_right: "left \<noteq> right"
  by (simp add: left_def right_def)

lemma padded_nth: "j < length xs \<Longrightarrow> padded xs ! j = xs ! j"
  by (simp add: padded_def nth_append)

lemma length_padded_ge: "length xs \<le> length (padded xs)"
  by (simp add: padded_def)

lemma set_padded: "set (padded xs) = set xs"
  by (cases "xs = []") (auto simp: padded_def)

lemma levels_ok_last:
  "levels_ok sha256 ls \<Longrightarrow> length (last ls) = 1"
  by (induction sha256 ls rule: levels_ok.induct) (auto split: sum.splits)

lemma proof_loop_ok:
  assumes "levels_ok sha256 (map ((!) h) (a # as))" "idx < length (h ! a)"
  shows "\<exists>p. proof_loop h (butlast (a # as)) idx acc = Inr (acc @ p)
           \<and> length p = length as
           \<and> verify_loop sha256 (h ! a ! idx) p = Inr (last (map ((!) h) (a # as)) ! 0)"
  using assms
proof (induction as arbitrary: a idx acc)
  case Nil
  then show ?case by simp
next
  case (Cons b bs)
  from Cons.prems(1) obtain nx where
    nx: "hash_pairs sha256 (h ! a) = Inr nx" and "nx \<noteq> []"
    and b: "h ! b = padded nx" and rest: "levels_ok sha256 (map ((!) h) (b # bs))"
    by (auto split: sum.splits)
  have len: "length (h ! a) = 2 * length nx"
    using nx by (rule hash_pairs_length)
  define j where "j = idx div 2"
  have j: "j < length nx" using len Cons.prems(2) by (simp add: j_def)
  then have jb: "j < length (h ! b)"
    using length_padded_ge [of nx] by (simp add: b)
  have bj: "h ! b ! j = nx ! j"
    using j by (simp add: b padded_nth)
  have parent: "double_sha256 sha256 (Str (h ! a ! (2 * j) @ h ! a ! Suc (2 * j))) = Inr (h ! b ! j)"
    using hash_pairs_nth [OF nx j] bj by simp
  have not_odd: "length (h ! a) mod 2 = 0" using len by simp
  show ?case
  proof (cases "idx mod 2 = 0")
    case True
    then have i2: "2 * j = idx" by (auto simp: j_def)
    then have sib: "Suc idx < length (h ! a)" using j len by simp
    obtain p where p: "proof_loop h (butlast (b # bs)) j (acc @ [(h ! a ! Suc idx, right)])
                         = Inr ((acc @ [(h ! a ! Suc idx, right)]) @ p)"
      "length p = length bs"
      "verify_loop sha256 (h ! b ! j) p = Inr (last (map ((!) h) (b # bs)) ! 0)"
      using Cons.IH [OF rest jb] by blast
    have "proof_loop h (butlast (a # b # bs)) idx acc = Inr (acc @ (h ! a ! Suc idx, right) # p)"
      using True not_odd sib p(1) by (simp add: Let_def getitem_def j_def)
    moreover have "verify_loop sha256 (h ! a ! idx) ((h ! a ! Suc idx, right) # p)
                     = Inr (last (map ((!) h) (a # b # bs)) ! 0)"
      using parent p(3) by (simp add: i2)
    ultimately show ?thesis using p(2)
      by (intro exI [of _ "(h ! a ! Suc idx, right) # p"]) simp
  next
    case False
    then have i2: "Suc (2 * j) = idx" unfolding j_def by presburger
    then have sib: "idx - 1 < length (h ! a)" "idx - 1 = 2 * j" using Cons.prems(2) by auto
    obtain p where p: "proof_loop h (butlast (b # bs)) j (acc @ [(h ! a ! (idx - 1), left)])
                         = Inr ((acc @ [(h ! a ! (idx - 1), left)]) @ p)"
      "length p = length bs"
      "verify_loop sha256 (h ! b ! j) p = Inr (last (map ((!) h) (b # bs)) ! 0)"
      using Cons.IH [OF rest jb] by blast
    have "proof_loop h (butlast (a # b # bs)) idx acc = Inr (acc @ (h ! a ! (idx - 1), left) # p)"
      using False not_odd sib p(1) by (simp add: Let_def getitem_def j_def)
    moreover have "double_sha256 sha256 (Str (h ! a ! (idx - 1) @ h ! a ! idx)) = Inr (h ! b ! j)"
      using parent by (simp only: sib(2) i2)
    then have "verify_loop sha256 (h ! a ! idx) ((h ! a ! (idx - 1), left) # p)
                     = Inr (last (map ((!) h) (a # b # bs)) ! 0)"
      using p(3) left_neq_right by simp
    ultimately show ?thesis using p(2)
      by (intro exI [of _ "(h ! a ! (idx - 1), left) # p"]) simp
  qed
qed

lemma index_of_Some:
  "index_of xs y = Some i \<Longrightarrow> i < length xs \<and> xs ! i = y \<and> (\<forall>j<i. xs ! j \<noteq> y)"
proof (induction xs arbitrary: i)
  case (Cons x xs)
  show ?case
  proof (cases "x = y")
    case True
    then show ?thesis using Cons.prems by simp
  next
    case False
    then obtain k where k: "index_of xs y = Some k" "i = Suc k"
      using Cons.prems by (auto split: option.splits)
    then have "k < length xs \<and> xs ! k = y \<and> (\<forall>j<k. xs ! j \<noteq> y)"
      using Cons.IH by blast
    then show ?thesis using False k(2) by (auto simp: nth_Cons split: nat.splits)
  qed
qed simp

lemma index_of_None: "(index_of xs y = None) = (y \<notin> set xs)"
  by (induction xs) (auto split: option.splits)

lemma index_of_first:
  "i < length xs \<Longrightarrow> xs ! i = y \<Longrightarrow> \<forall>j<i. xs ! j \<noteq> y \<Longrightarrow> index_of xs y = Some i"
proof -
  assume a: "i < length xs" "xs ! i = y" "\<forall>j<i. xs ! j \<noteq> y"
  then have "y \<in> set xs" by auto
  then obtain k where k: "index_of xs y = Some k"
    using index_of_None [of xs y] by auto
  from index_of_Some [OF k] a have "k = i"
    by (metis linorder_neqE_nat)
  then show ?thesis using k by simp
qed

lemma index_of_append:
  "y \<in> set xs \<Longrightarrow> index_of (xs @ ys) y = index_of xs y"
  by (induction xs) (auto split: option.splits)

lemma index_of_padded: "index_of (padded xs) y = index_of xs y"
proof (cases "y \<in> set xs")
  case True
  then show ?thesis by (simp add: padded_def index_of_append)
next
  case False
  then show ?thesis
    using index_of_None [of xs y] index_of_None [of "padded xs" y] by (simp add: set_padded)
qed

section \<open>Trees built by \<open>MerkleTree\<close>\<close>

lemma is_record_txid:
  "is_record sha256 tx \<Longrightarrow> double_sha256 sha256 (data tx) = Inr (txid tx)"
proof -
  assume "is_record sha256 tx"
  then obtain x where x: "double_sha256 sha256 (data tx) = Inr x"
    and tx: "tx = \<lparr>data = data tx, txid = x\<rparr>"
    by (auto simp: is_record_def Transaction_def split: sum.splits)
  have "txid tx = x" by (subst tx) simp
  then show ?thesis using x by simp
qed

lemma is_record_encodable: "is_record sha256 tx \<Longrightarrow> encodable (txid tx)"
  by (auto dest: is_record_txid double_sha256_encodable)

lemma records_encodable:
  "list_all (is_record sha256) txs \<Longrightarrow> \<forall>x\<in>set (map txid txs). encodable x"
  by (auto simp: list_all_iff is_record_encodable)

lemma MerkleTree_empty:
  "MerkleTree sha256 h [] =
     Inr (h @ [[]], \<lparr>transactions = [], txids = length h, tree_levels = [], root = None\<rparr>)"
  by (simp add: MerkleTree_def alloc_def build_tree_levels_def)

lemma MerkleTree_ok:
  assumes "txs \<noteq> []" "\<forall>x\<in>set (map txid txs). encodable x"
  shows "\<exists>h' lvls r. MerkleTree sha256 h txs =
             Inr (h', \<lparr>transactions = txs, txids = length h,
                       tree_levels = length h # lvls, root = Some r\<rparr>)
           \<and> (\<forall>a<length h. h' ! a = h ! a)
           \<and> h' ! length h = padded (map txid txs)
           \<and> levels_ok sha256 (map ((!) h') (length h # lvls))
           \<and> last (map ((!) h') (length h # lvls)) = [r]"
proof -
  define h1 where "h1 = h @ [map txid txs]"
  define ids where "ids = length h"
  have al: "alloc h (map txid txs) = (h1, ids)"
    by (simp add: alloc_def h1_def ids_def)
  have cur: "h1 ! ids = map txid txs"
    by (simp add: h1_def ids_def)
  have "ids < length h1" "h1 ! ids \<noteq> []" "\<forall>x\<in>set (h1 ! ids). encodable x"
    using assms by (simp_all add: cur) (simp add: h1_def ids_def)
  from build_loop_ok [OF this, of sha256 "[ids]"]
  obtain h' new where run: "build_loop sha256 h1 [ids] ids = Inr (h', [ids] @ new)"
    and frame: "\<forall>a<length h1. a \<noteq> ids \<longrightarrow> h' ! a = h1 ! a"
    and lv0: "h' ! ids = padded (h1 ! ids)"
    and ok: "levels_ok sha256 (map ((!) h') (ids # new))"
    by blast
  have btl: "build_tree_levels sha256 h1 ids = Inr (h', ids # new)"
    using run assms(1) by (simp add: build_tree_levels_def cur)
  have "length (last (map ((!) h') (ids # new))) = 1"
    using ok by (rule levels_ok_last)
  then obtain r where r: "last (map ((!) h') (ids # new)) = [r]"
    by (metis One_nat_def length_0_conv length_Suc_conv)
  have "last (map ((!) h') (ids # new)) = h' ! last (ids # new)"
    by (rule last_map) simp
  then have top: "h' ! last (ids # new) = [r]" using r by simp
  have "MerkleTree sha256 h txs =
          Inr (h', \<lparr>transactions = txs, txids = length h,
                    tree_levels = length h # new, root = Some r\<rparr>)"
    unfolding MerkleTree_def al using btl top
    by (simp add: getitem_def ids_def del: last.simps)
  moreover have "\<forall>a<length h. h' ! a = h ! a"
    using frame by (simp add: h1_def ids_def nth_append)
  moreover have "h' ! length h = padded (map txid txs)"
    using lv0 cur by (simp add: ids_def)
  ultimately show ?thesis using ok r unfolding ids_def by blast
qed

section \<open>The fold of the specification, level sizes, sample records\<close>

lemma foldl_spec_step_Inl: "foldl (spec_step sha256) (Inl e) p = Inl e"
  by (induction p) (simp_all add: spec_step_def)

lemma spec_step_Inr:
  "spec_step sha256 (Inr a) (sibling, side) =
     (if side = right then double_sha256 sha256 (Str (a @ sibling))
      else double_sha256 sha256 (Str (sibling @ a)))"
  by (simp add: spec_step_def)

lemma verify_loop_foldl:
  "verify_loop sha256 a p = foldl (spec_step sha256) (Inr a) p"
proof (induction p arbitrary: a)
  case Nil
  show ?case by simp
next
  case (Cons entry p)
  obtain sibling side where entry: "entry = (sibling, side)" by (cases entry)
  have step: "verify_loop sha256 a (entry # p) =
                (case spec_step sha256 (Inr a) entry of
                   Inl e \<Rightarrow> Inl e
                 | Inr a' \<Rightarrow> verify_loop sha256 a' p)"
    by (simp add: entry spec_step_Inr)
  show ?case
  proof (cases "spec_step sha256 (Inr a) entry")
    case (Inl e)
    then show ?thesis
      unfolding step by (simp add: foldl_spec_step_Inl)
  next
    case (Inr a')
    then show ?thesis
      unfolding step using Cons.IH [of a'] by simp
  qed
qed

lemma length_padded: "length (padded xs) = padded_size (length xs)"
  by (simp add: padded_def padded_size_def)

lemma levels_ok_sizes: "levels_ok sha256 ls \<Longrightarrow> padded_halving (map length ls)"
proof (induction sha256 ls rule: levels_ok.induct)
  case (3 sha256 l l' rest)
  then obtain nx where nx: "hash_pairs sha256 l = Inr nx" "l' = padded nx"
    "levels_ok sha256 (l' # rest)"
    by (auto split: sum.splits)
  have "length l = 2 * length nx" using nx(1) by (rule hash_pairs_length)
  then show ?case using 3 nx by (simp add: length_padded)
qed simp_all

text \<open>
  Five records give levels of 6, 4, 2 and 1 entries, whatever the digest function is.
\<close>

lemma padded_halving_six: "padded_halving (6 # ns) \<Longrightarrow> ns = [4, 2, 1]"
proof -
  assume a: "padded_halving (6 # ns)"
  then obtain r1 where 1: "ns = 4 # r1" "padded_halving (4 # r1)"
    by (cases ns) (auto simp: padded_size_def)
  then obtain r2 where 2: "r1 = 2 # r2" "padded_halving (2 # r2)"
    by (cases r1) (auto simp: padded_size_def)
  then obtain r3 where 3: "r2 = 1 # r3" "padded_halving (1 # r3)"
    by (cases r2) (auto simp: padded_size_def)
  then have "r3 = []" by (cases r3) auto
  then show ?thesis using 1 2 3 by simp
qed

lemma five_records_level_sizes:
  assumes "list_all (is_record sha256) txs" and "length txs = 5"
  shows "level_sizes sha256 h txs = Inr [6, 4, 2, 1]"
proof -
  have ne: "txs \<noteq> []" using assms(2) by auto
  from MerkleTree_ok [OF ne records_encodable [OF assms(1)], of sha256 h]
  obtain h' lvls r where
    tree: "MerkleTree sha256 h txs =
             Inr (h', \<lparr>transactions = txs, txids = length h,
                       tree_levels = length h # lvls, root = Some r\<rparr>)"
    and lv0: "h' ! length h = padded (map txid txs)"
    and ok: "levels_ok sha256 (map ((!) h') (length h # lvls))"
    by blast
  have "padded_halving (map length (map ((!) h') (length h # lvls)))"
    using ok by (rule levels_ok_sizes)
  moreover have "length (h' ! length h) = 6"
    by (simp add: lv0 length_padded padded_size_def assms(2))
  ultimately have "map length (map ((!) h') lvls) = [4, 2, 1]"
    by (intro padded_halving_six) simp
  then show ?thesis
    using tree \<open>length (h' ! length h) = 6\<close> by (simp add: level_sizes_def level_lists_def)
qed

lemma sample_records:
  "is_record sample_digest tx_a" "is_record sample_digest tx_b" "is_record sample_digest tx_c"
  "is_record sample_digest tx_d" "is_record sample_digest tx_e"
  by code_simp+

section \<open>The claims\<close>

text \<open>
  Claim C1.  For every digest function, every store and every non-empty list of records,
  the block is built, \<open>get_merkle_proof\<close> returns a proof for the fingerprint of each
  record of the list, and a client that holds the block's header verifies that
  fingerprint with that proof: \<open>verify_transaction\<close> returns \<open>True\<close>.
\<close>

theorem inclusion_proof_verifies:
  assumes "txs \<noteq> []" and "list_all (is_record sha256) txs" and "tx \<in> set txs"
  shows "\<exists>h' b p. Block sha256 h txs = Inr (h', b)
           \<and> get_merkle_proof h' b (txid tx) = Inr (Some p)
           \<and> verify_transaction sha256 (set_header SPVClient (block_header b))
                 (txid tx) (Some p) = Inr True"
proof -
  from MerkleTree_ok [OF assms(1) records_encodable [OF assms(2)], of sha256 h]
  obtain h' lvls r where
    tree: "MerkleTree sha256 h txs =
             Inr (h', \<lparr>transactions = txs, txids = length h,
                       tree_levels = length h # lvls, root = Some r\<rparr>)"
    and lv0: "h' ! length h = padded (map txid txs)"
    and ok: "levels_ok sha256 (map ((!) h') (length h # lvls))"
    and top: "last (map ((!) h') (length h # lvls)) = [r]"
    by blast
  define t where "t = \<lparr>transactions = txs, txids = length h,
                        tree_levels = length h # lvls, root = Some r\<rparr>"
  define b where "b = \<lparr>block_transactions = txs, merkle_tree = t,
                        block_header = \<lparr>merkle_root = root t\<rparr>\<rparr>"
  have blk: "Block sha256 h txs = Inr (h', b)"
    by (simp add: Block_def tree b_def t_def)
  have "txid tx \<in> set (map txid txs)" using assms(3) by simp
  then obtain i where i: "index_of (map txid txs) (txid tx) = Some i"
    using index_of_None [of "map txid txs" "txid tx"] by auto
  have i_lt: "i < length (map txid txs)" and i_at: "map txid txs ! i = txid tx"
    using index_of_Some [OF i] by simp_all
  have idx: "index_of (h' ! length h) (txid tx) = Some i"
    by (simp add: lv0 index_of_padded i)
  have i_in: "i < length (h' ! length h)"
    using i_lt length_padded_ge [of "map txid txs"] by (simp add: lv0)
  have leaf: "h' ! length h ! i = txid tx"
    using i_lt i_at by (simp add: lv0 padded_nth)
  from proof_loop_ok [OF ok i_in, of "[]"]
  obtain p where walk: "proof_loop h' (butlast (length h # lvls)) i [] = Inr p"
    and fold: "verify_loop sha256 (txid tx) p = Inr r"
    using leaf top by auto
  have "get_merkle_proof h' b (txid tx) = Inr (Some p)"
    using idx walk by (simp add: get_merkle_proof_def get_proof_def b_def t_def)
  moreover have "verify_transaction sha256 (set_header SPVClient (block_header b))
                   (txid tx) (Some p) = Inr True"
    using fold by (simp add: verify_transaction_def set_header_def b_def t_def)
  ultimately show ?thesis using blk by blast
qed

theorem inclusion_proof_verifies_witness:
  "[tx_a, tx_b, tx_c] \<noteq> [] \<and> list_all (is_record sample_digest) [tx_a, tx_b, tx_c] \<and>
   tx_c \<in> set [tx_a, tx_b, tx_c] \<and>
   (\<exists>h' b p. Block sample_digest [] [tx_a, tx_b, tx_c] = Inr (h', b)
       \<and> get_merkle_proof h' b (txid tx_c) = Inr (Some p)
       \<and> verify_transaction sample_digest (set_header SPVClient (block_header b))
             (txid tx_c) (Some p) = Inr True)"
proof -
  have recs: "list_all (is_record sample_digest) [tx_a, tx_b, tx_c]"
    by (simp add: sample_records)
  show ?thesis
    using recs inclusion_proof_verifies [of "[tx_a, tx_b, tx_c]" sample_digest tx_c "[]"]
    by simp
qed

text \<open>
  Claim C2.  What \<open>get_proof\<close> returns for the third of three records whose fingerprint
  differs from the other two: a proof of two entries, the first of which is the leaf's own
  fingerprint with side \<open>right\<close>, that is the padding duplicate at index 3 of level 0,
  and the second the parent of the first two leaves with side \<open>left\<close>.  The stored
  level 0 has four entries, so the branch of \<open>get_proof\<close> for the self-paired node of
  an odd level is not taken.
\<close>

theorem third_of_three_proof:
  assumes "list_all (is_record sha256) [t1, t2, t3]"
    and "txid t3 \<noteq> txid t1" and "txid t3 \<noteq> txid t2"
  shows "\<exists>h' t p12. MerkleTree sha256 h [t1, t2, t3] = Inr (h', t)
           \<and> double_sha256 sha256 (Str (txid t1 @ txid t2)) = Inr p12
           \<and> get_proof h' t (txid t3) = Inr (Some [(txid t3, right), (p12, left)])"
proof -
  have ne: "[t1, t2, t3] \<noteq> []" by simp
  from MerkleTree_ok [OF ne records_encodable [OF assms(1)], of sha256 h]
  obtain h' lvls r where
    tree: "MerkleTree sha256 h [t1, t2, t3] =
             Inr (h', \<lparr>transactions = [t1, t2, t3], txids = length h,
                       tree_levels = length h # lvls, root = Some r\<rparr>)"
    and lv0: "h' ! length h = padded (map txid [t1, t2, t3])"
    and ok: "levels_ok sha256 (map ((!) h') (length h # lvls))"
    by blast
  have l0: "h' ! length h = [txid t1, txid t2, txid t3, txid t3]"
    by (simp add: lv0 padded_def)
  obtain a1 rest where lvls: "lvls = a1 # rest"
    using ok l0 by (cases lvls) auto
  obtain p12 p33 where p12: "double_sha256 sha256 (Str (txid t1 @ txid t2)) = Inr p12"
    and l1: "h' ! a1 = [p12, p33]"
    and ok1: "levels_ok sha256 (map ((!) h') (a1 # rest))"
    using ok unfolding lvls by (auto simp: l0 padded_def split: sum.splits)
  obtain a2 rest' where rest: "rest = a2 # rest'"
    using ok1 l1 by (cases rest) auto
  obtain r' where l2: "h' ! a2 = [r']"
    and ok2: "levels_ok sha256 (map ((!) h') (a2 # rest'))"
    using ok1 unfolding rest by (auto simp: l1 padded_def split: sum.splits)
  have rest': "rest' = []"
    using ok2 l2 by (cases rest') auto
  have idx: "index_of (h' ! length h) (txid t3) = Some 2"
    using assms(2,3) by (auto simp: l0)
  have "proof_loop h' [length h, a1] 2 [] = Inr [(txid t3, right), (p12, left)]"
    by (simp add: l0 l1 getitem_def Let_def)
  then have "get_proof h' \<lparr>transactions = [t1, t2, t3], txids = length h,
                       tree_levels = length h # lvls, root = Some r\<rparr> (txid t3)
               = Inr (Some [(txid t3, right), (p12, left)])"
    using idx by (simp add: get_proof_def lvls rest rest')
  then show ?thesis using tree p12 by blast
qed

theorem third_of_three_proof_witness:
  "list_all (is_record sample_digest) [tx_a, tx_b, tx_c] \<and>
   txid tx_c \<noteq> txid tx_a \<and> txid tx_c \<noteq> txid tx_b \<and>
   (\<exists>h' t p12. MerkleTree sample_digest [] [tx_a, tx_b, tx_c] = Inr (h', t)
       \<and> double_sha256 sample_digest (Str (txid tx_a @ txid tx_b)) = Inr p12
       \<and> get_proof h' t (txid tx_c) = Inr (Some [(txid tx_c, right), (p12, left)]))"
proof -
  have recs: "list_all (is_record sample_digest) [tx_a, tx_b, tx_c]"
    by (simp add: sample_records)
  have d1: "txid tx_c \<noteq> txid tx_a" and d2: "txid tx_c \<noteq> txid tx_b"
    by (simp_all add: tx_a_def tx_b_def tx_c_def)
  show ?thesis
    using recs d1 d2 third_of_three_proof [OF recs d1 d2, of "[]"] by simp
qed

text \<open>
  Claim C3.  For an odd number (greater than one) of records, the list object that
  \<open>__init__\<close> creates for \<open>self.txids\<close> and passes to \<open>_build_tree_levels\<close> is the
  object stored as level 0, and after the construction it holds the fingerprints of the
  records followed by one more copy of the last fingerprint: one entry more than there
  are records.
\<close>

theorem level0_padded_in_place:
  assumes "list_all (is_record sha256) txs" and "1 < length txs" and "odd (length txs)"
  shows "\<exists>h' t. MerkleTree sha256 h txs = Inr (h', t)
           \<and> hd (tree_levels t) = txids t
           \<and> h' ! txids t = map txid txs @ [txid (last txs)]"
proof -
  have ne: "txs \<noteq> []" using assms(2) by auto
  from MerkleTree_ok [OF ne records_encodable [OF assms(1)], of sha256 h]
  obtain h' lvls r where
    tree: "MerkleTree sha256 h txs =
             Inr (h', \<lparr>transactions = txs, txids = length h,
                       tree_levels = length h # lvls, root = Some r\<rparr>)"
    and lv0: "h' ! length h = padded (map txid txs)"
    by blast
  have "padded (map txid txs) = map txid txs @ [txid (last txs)]"
    using assms(2,3) ne by (simp add: padded_def last_map odd_iff_mod_2_eq_one)
  then show ?thesis using tree lv0 by simp
qed

theorem level0_padded_in_place_witness:
  "list_all (is_record sample_digest) [tx_a, tx_b, tx_c] \<and>
   1 < length [tx_a, tx_b, tx_c] \<and> odd (length [tx_a, tx_b, tx_c]) \<and>
   (\<exists>h' t. MerkleTree sample_digest [] [tx_a, tx_b, tx_c] = Inr (h', t)
       \<and> hd (tree_levels t) = txids t
       \<and> h' ! txids t = [txid tx_a, txid tx_b, txid tx_c, txid tx_c])"
proof -
  have recs: "list_all (is_record sample_digest) [tx_a, tx_b, tx_c]"
    by (simp add: sample_records)
  show ?thesis
    using recs level0_padded_in_place [OF recs, of "[]"] by simp
qed

text \<open>
  Claim C4.  For a single record \<open>tx\<close> the constructor returns a tree with exactly one
  level, the list \<open>[txid tx]\<close>, and the root \<open>txid tx\<close>; \<open>get_proof\<close> of that
  fingerprint returns the empty proof, and verifying it against the root succeeds.
  The three results hold for every digest function and every fingerprint, also one that
  \<open>double_sha256\<close> would refuse: nothing is hashed on the way.
\<close>

theorem single_record_tree:
  "MerkleTree sha256 h [tx] =
     Inr (h @ [[txid tx]],
          \<lparr>transactions = [tx], txids = length h, tree_levels = [length h],
           root = Some (txid tx)\<rparr>) \<and>
   get_proof (h @ [[txid tx]])
     \<lparr>transactions = [tx], txids = length h, tree_levels = [length h],
      root = Some (txid tx)\<rparr> (txid tx) = Inr (Some []) \<and>
   verify_transaction sha256 (set_header SPVClient \<lparr>merkle_root = Some (txid tx)\<rparr>)
     (txid tx) (Some []) = Inr True"
proof -
  have "build_loop sha256 (h @ [[txid tx]]) [length h] (length h) =
          Inr (h @ [[txid tx]], [length h])"
    by (subst build_loop.simps) simp
  then show ?thesis
    by (simp add: MerkleTree_def alloc_def build_tree_levels_def getitem_def get_proof_def
        verify_transaction_def set_header_def)
qed

text \<open>
  Claim C5.  With a header set and a proof given, \<open>verify_transaction\<close> is the left to
  right fold of the specification: it starts at the leaf fingerprint, an entry with side
  \<open>right\<close> hashes accumulator followed by sibling, every other entry sibling followed by
  accumulator, and the result is success exactly when the final accumulator is the root
  of the header.
\<close>

theorem verify_transaction_is_fold:
  "verify_transaction sha256 (set_header c hdr) tx (Some p) =
     spec_verify sha256 tx p (merkle_root hdr)"
  by (simp add: verify_transaction_def set_header_def spec_verify_def verify_loop_foldl
      split: sum.splits)

text \<open>
  Claim C6.  \<open>double_sha256\<close> is a function of the digest and its argument alone; on
  bytes it is the hexadecimal text of the digest of the digest, and on text it is the
  same function applied to the UTF-8 encoding of the text (or the encoder's error).
\<close>

theorem double_sha256_digest_of_digest:
  "double_sha256 sha256 (Bytes b) = Inr (hexdigest (sha256 (sha256 b))) \<and>
   double_sha256 sha256 (Str s) =
     (case encode_utf8 s of
        Inl e \<Rightarrow> Inl e
      | Inr b \<Rightarrow> double_sha256 sha256 (Bytes b))"
  by (simp add: double_sha256_def split: sum.splits)

text \<open>
  Claim C7.  For a tree built from records: \<open>get_proof\<close> of a fingerprint that no record
  has returns \<open>None\<close> (and raises nothing); and when \<open>i\<close> is the lowest index of a
  record with the fingerprint \<open>target\<close>, \<open>get_proof\<close> returns the proof that the walk
  up the levels from index \<open>i\<close> collects.
\<close>

theorem get_proof_first_match:
  assumes "list_all (is_record sha256) txs"
  shows "\<exists>h' t. MerkleTree sha256 h txs = Inr (h', t)
           \<and> (target \<notin> set (map txid txs) \<longrightarrow> get_proof h' t target = Inr None)
           \<and> (\<forall>i<length txs.
                 txid (txs ! i) = target \<and> (\<forall>j<i. txid (txs ! j) \<noteq> target) \<longrightarrow>
                 (\<exists>p. get_proof h' t target = Inr (Some p)
                      \<and> proof_loop h' (butlast (tree_levels t)) i [] = Inr p))"
proof (cases "txs = []")
  case True
  then show ?thesis
    by (simp add: MerkleTree_empty get_proof_def)
next
  case False
  from MerkleTree_ok [OF False records_encodable [OF assms], of sha256 h]
  obtain h' lvls r where
    tree: "MerkleTree sha256 h txs =
             Inr (h', \<lparr>transactions = txs, txids = length h,
                       tree_levels = length h # lvls, root = Some r\<rparr>)"
    and lv0: "h' ! length h = padded (map txid txs)"
    and ok: "levels_ok sha256 (map ((!) h') (length h # lvls))"
    by blast
  define t where "t = \<lparr>transactions = txs, txids = length h,
                        tree_levels = length h # lvls, root = Some r\<rparr>"
  have idx: "index_of (h' ! txids t) target = index_of (map txid txs) target"
    by (simp add: t_def lv0 index_of_padded)
  have absent: "target \<notin> set (map txid txs) \<longrightarrow> get_proof h' t target = Inr None"
  proof
    assume "target \<notin> set (map txid txs)"
    then have "index_of (map txid txs) target = None"
      using index_of_None [of "map txid txs" target] by blast
    then show "get_proof h' t target = Inr None"
      by (simp add: get_proof_def idx)
  qed
  have found: "\<exists>p. get_proof h' t target = Inr (Some p)
                 \<and> proof_loop h' (butlast (tree_levels t)) i [] = Inr p"
    if i: "i < length txs" "txid (txs ! i) = target" "\<forall>j<i. txid (txs ! j) \<noteq> target" for i
  proof -
    have "index_of (map txid txs) target = Some i"
      using i by (intro index_of_first) simp_all
    then have at: "index_of (h' ! txids t) target = Some i"
      by (simp add: idx)
    have "i < length (h' ! length h)"
      using i(1) length_padded_ge [of "map txid txs"] by (simp add: lv0)
    from proof_loop_ok [OF ok this, of "[]"]
    obtain p where "proof_loop h' (butlast (length h # lvls)) i [] = Inr p"
      by auto
    then show ?thesis
      using at by (simp add: get_proof_def t_def)
  qed
  show ?thesis
    using tree absent found unfolding t_def [symmetric] by blast
qed

theorem get_proof_first_match_witness:
  "list_all (is_record sample_digest) [tx_a, tx_b, tx_a] \<and>
   (\<exists>h' t. MerkleTree sample_digest [] [tx_a, tx_b, tx_a] = Inr (h', t)
       \<and> [120] \<notin> set (map txid [tx_a, tx_b, tx_a])
       \<and> get_proof h' t [120] = Inr None
       \<and> (0::nat) < length [tx_a, tx_b, tx_a]
       \<and> txid ([tx_a, tx_b, tx_a] ! 0) = txid tx_a
       \<and> (\<exists>p. get_proof h' t (txid tx_a) = Inr (Some p)
              \<and> proof_loop h' (butlast (tree_levels t)) 0 [] = Inr p))"
proof -
  have recs: "list_all (is_record sample_digest) [tx_a, tx_b, tx_a]"
    by (simp add: sample_records)
  have absent: "[120] \<notin> set (map txid [tx_a, tx_b, tx_a])"
    by (simp add: tx_a_def tx_b_def)
  from get_proof_first_match [OF recs, of "[]" "[120]"] absent
  obtain h' t where tree: "MerkleTree sample_digest [] [tx_a, tx_b, tx_a] = Inr (h', t)"
    and none: "get_proof h' t [120] = Inr None"
    by blast
  from get_proof_first_match [OF recs, of "[]" "txid tx_a"] tree
  have "\<forall>i<length [tx_a, tx_b, tx_a].
          txid ([tx_a, tx_b, tx_a] ! i) = txid tx_a
          \<and> (\<forall>j<i. txid ([tx_a, tx_b, tx_a] ! j) \<noteq> txid tx_a) \<longrightarrow>
          (\<exists>p. get_proof h' t (txid tx_a) = Inr (Some p)
               \<and> proof_loop h' (butlast (tree_levels t)) i [] = Inr p)"
    by auto
  then have "\<exists>p. get_proof h' t (txid tx_a) = Inr (Some p)
               \<and> proof_loop h' (butlast (tree_levels t)) 0 [] = Inr p"
    by (elim allE [of _ 0]) simp
  then show ?thesis using recs absent tree none by auto
qed

text \<open>
  Claim C8.  A client whose header was never set answers \<open>False\<close> whatever the
  fingerprint, the proof and the digest function are (the fold is not run: the answer is
  \<open>False\<close> also on a proof whose hashing would raise), and any client answers
  \<open>False\<close>, not an error, when the proof is \<open>None\<close>.
\<close>

theorem verify_rejects_without_header_or_proof:
  "verify_transaction sha256 SPVClient tx proof = Inr False \<and>
   verify_transaction sha256 c tx None = Inr False"
  by (simp add: verify_transaction_def SPVClient_def split: option.splits)

text \<open>
  Claim C9.  For every list of records the constructor returns a tree, and this tree has
  a root if and only if the list is not empty, and levels if and only if the list is not
  empty; on the tree of the empty list \<open>get_proof\<close> returns \<open>None\<close> for every
  fingerprint.
\<close>

theorem root_iff_nonempty:
  assumes "list_all (is_record sha256) txs"
  shows "\<exists>h' t. MerkleTree sha256 h txs = Inr (h', t)
           \<and> (root t \<noteq> None) = (txs \<noteq> [])
           \<and> (tree_levels t \<noteq> []) = (txs \<noteq> [])
           \<and> (txs = [] \<longrightarrow> get_proof h' t target = Inr None)"
proof (cases "txs = []")
  case True
  then show ?thesis
    by (simp add: MerkleTree_empty get_proof_def)
next
  case False
  from MerkleTree_ok [OF False records_encodable [OF assms], of sha256 h]
  show ?thesis using False by auto
qed

theorem root_iff_nonempty_witness:
  "list_all (is_record sample_digest) [] \<and>
   (\<exists>h' t. MerkleTree sample_digest [] [] = Inr (h', t) \<and> root t = None
       \<and> tree_levels t = [] \<and> get_proof h' t (txid tx_a) = Inr None) \<and>
   list_all (is_record sample_digest) [tx_a, tx_b] \<and>
   (\<exists>h' t. MerkleTree sample_digest [] [tx_a, tx_b] = Inr (h', t) \<and> root t \<noteq> None
       \<and> tree_levels t \<noteq> [])"
proof -
  have recs: "list_all (is_record sample_digest) [tx_a, tx_b]"
    by (simp add: sample_records)
  have e: "list_all (is_record sample_digest) []" by simp
  show ?thesis
    using recs root_iff_nonempty [OF e, of "[]" "txid tx_a"]
      root_iff_nonempty [OF recs, of "[]" "txid tx_a"]
    by auto
qed

text \<open>
  Claim C10, as amended.  After the construction from a non-empty list of records, every
  stored level but the last has an even number of entries, the level above it has half
  that number after its own padding (one more entry when the half is odd and greater
  than one), the last level has exactly one entry, and level 0 has the number of records
  after padding.
\<close>

theorem stored_level_sizes:
  assumes "txs \<noteq> []" and "list_all (is_record sha256) txs"
  shows "\<exists>ns. level_sizes sha256 h txs = Inr ns \<and> padded_halving ns
           \<and> hd ns = padded_size (length txs)"
proof -
  from MerkleTree_ok [OF assms(1) records_encodable [OF assms(2)], of sha256 h]
  obtain h' lvls r where
    tree: "MerkleTree sha256 h txs =
             Inr (h', \<lparr>transactions = txs, txids = length h,
                       tree_levels = length h # lvls, root = Some r\<rparr>)"
    and lv0: "h' ! length h = padded (map txid txs)"
    and ok: "levels_ok sha256 (map ((!) h') (length h # lvls))"
    by blast
  have "padded_halving (map length (map ((!) h') (length h # lvls)))"
    using ok by (rule levels_ok_sizes)
  then show ?thesis
    using tree lv0 by (simp add: level_sizes_def level_lists_def length_padded)
qed

theorem stored_level_sizes_witness:
  "[tx_a, tx_b, tx_c, tx_d, tx_e] \<noteq> [] \<and>
   list_all (is_record sample_digest) [tx_a, tx_b, tx_c, tx_d, tx_e] \<and>
   (\<exists>ns. level_sizes sample_digest [] [tx_a, tx_b, tx_c, tx_d, tx_e] = Inr ns
       \<and> padded_halving ns \<and> hd ns = 6)"
proof -
  have recs: "list_all (is_record sample_digest) [tx_a, tx_b, tx_c, tx_d, tx_e]"
    by (simp add: sample_records)
  have sz: "padded_size (length [tx_a, tx_b, tx_c, tx_d, tx_e]) = 6"
    by (simp add: padded_size_def)
  have "\<exists>ns. level_sizes sample_digest [] [tx_a, tx_b, tx_c, tx_d, tx_e] = Inr ns
          \<and> padded_halving ns \<and> hd ns = 6"
    using stored_level_sizes [OF _ recs, of "[]"] unfolding sz by simp
  then show ?thesis using recs by simp
qed

text \<open>
  Claim C10 as stated fails: with five records the stored levels have 6, 4, 2 and 1
  entries, and 4 is not half of 6 (the second level was computed with 3 entries and
  padded in place in the next round of the loop).  By \<open>five_records_level_sizes\<close>
  the sizes are the same for every digest function.
\<close>

theorem halving_counterexample:
  "level_sizes sample_digest [] [tx_a, tx_b, tx_c, tx_d, tx_e] = Inr [6, 4, 2, 1] \<and>
   \<not> halving [6, 4, 2, 1]"
proof -
  have "level_sizes sample_digest [] [tx_a, tx_b, tx_c, tx_d, tx_e] = Inr [6, 4, 2, 1]"
    by code_simp
  then show ?thesis by simp
qed

end
